theory Spec2Isabelle
  imports Complex_Main "HOL-Library.Sublist"
begin

section \<open>The table-aware Markdown cleaner of \<open>src/index.ts\<close>\<close>

text \<open>
  The development embeds \<open>cleanMarkerOutput\<close> and the functions it calls
  (\<open>improvedCleanMarkerOutput\<close>, \<open>cleanTableLine\<close>, \<open>formatTableRegion\<close>,
  \<open>cleanRegularLine\<close>, \<open>applyGlobalCleanups\<close>).

  Conventions of the embedding.
  \<^item> A JavaScript string is a \<open>string\<close>; every element stands for one code unit, so
    \<open>length\<close> is \<open>.length\<close>. Texts with code units above 255 are outside the model.
  \<^item> A JavaScript number that holds a line index is an \<open>int\<close>; a column width is a
    \<open>rat\<close>: the quotient \<open>sum / count\<close> is taken exactly (the double the engine
    computes is the nearest one), and \<open>Math.floor(maxLength * 0.8)\<close> is
    \<open>\<lfloor>4 * maxLength / 5\<rfloor>\<close> (the double \<open>0.8\<close> lies above 4/5 by less than
    \<open>10\<^sup>-\<^sup>1\<^sup>6\<close>, and the fractional part of \<open>4 * n / 5\<close> is a multiple of 1/5).
  \<^item> A regular expression is a value of type \<open>regex\<close>, run by a backtracking matcher
    that returns the matches in the order in which the engine would try them.
  \<^item> Reading \<open>lines[i]\<close> outside the array gives \<open>undefined\<close>, on which the
    cleaners would throw a \<open>TypeError\<close>: that is the one error of the model.
\<close>

subsection \<open>Characters and strings\<close>

definition is_ws :: "char \<Rightarrow> bool" where
  \<comment> \<open>\<open>\s\<close>, and what \<open>trim\<close> removes: TAB, LF, VT, FF, CR, space, NBSP\<close>
  "is_ws c \<longleftrightarrow> c \<in> set [CHR 0x09, CHR 0x0A, CHR 0x0B, CHR 0x0C, CHR 0x0D, CHR 0x20, CHR 0xA0]"

definition is_line_terminator :: "char \<Rightarrow> bool" where
  "is_line_terminator c \<longleftrightarrow> c = CHR 0x0A \<or> c = CHR 0x0D"

definition is_upper :: "char \<Rightarrow> bool" where
  "is_upper c \<longleftrightarrow> (65::nat) \<le> of_char c \<and> (of_char c :: nat) \<le> 90"

definition is_lower :: "char \<Rightarrow> bool" where
  "is_lower c \<longleftrightarrow> (97::nat) \<le> of_char c \<and> (of_char c :: nat) \<le> 122"

definition is_digit :: "char \<Rightarrow> bool" where
  "is_digit c \<longleftrightarrow> (48::nat) \<le> of_char c \<and> (of_char c :: nat) \<le> 57"

definition is_alpha_ws :: "char \<Rightarrow> bool" where
  \<comment> \<open>\<open>[A-Za-z\s]\<close>\<close>
  "is_alpha_ws c \<longleftrightarrow> is_upper c \<or> is_lower c \<or> is_ws c"

definition is_sep_char :: "char \<Rightarrow> bool" where
  \<comment> \<open>\<open>[\s\-\|]\<close>\<close>
  "is_sep_char c \<longleftrightarrow> is_ws c \<or> c = CHR ''-'' \<or> c = CHR ''|''"

definition not_angle :: "char \<Rightarrow> bool" where
  \<comment> \<open>\<open>[^<>]\<close>\<close>
  "not_angle c \<longleftrightarrow> c \<noteq> CHR ''<'' \<and> c \<noteq> CHR ''>''"

definition url_char :: "char \<Rightarrow> bool" where
  \<comment> \<open>\<open>[^\s<>]\<close>\<close>
  "url_char c \<longleftrightarrow> \<not> is_ws c \<and> c \<noteq> CHR ''<'' \<and> c \<noteq> CHR ''>''"

text \<open>\<open>s.split(d)\<close> for a separator of one character.\<close>

fun split_on :: "char \<Rightarrow> string \<Rightarrow> string list" where
  "split_on d [] = [[]]"
| "split_on d (c # cs) =
     (if c = d then [] # split_on d cs
      else (case split_on d cs of [] \<Rightarrow> [[c]] | w # ws \<Rightarrow> (c # w) # ws))"

text \<open>\<open>xs.join(sep)\<close>.\<close>

fun join_with :: "string \<Rightarrow> string list \<Rightarrow> string" where
  "join_with sep [] = []"
| "join_with sep [x] = x"
| "join_with sep (x # y # ys) = x @ sep @ join_with sep (y # ys)"

definition trim :: "string \<Rightarrow> string" where
  "trim s = rev (dropWhile is_ws (rev (dropWhile is_ws s)))"

text \<open>
  \<open>s.padEnd(w)\<close>, \<open>c.repeat(w)\<close> and \<open>s.substring(0, w)\<close> convert their numeric
  argument to an integer by truncation; the widths they are called with are at least 5.
\<close>

definition padEnd :: "string \<Rightarrow> rat \<Rightarrow> string" where
  "padEnd s w = s @ replicate (nat \<lfloor>w\<rfloor> - length s) CHR '' ''"

definition repeat :: "char \<Rightarrow> rat \<Rightarrow> string" where
  "repeat c w = replicate (nat \<lfloor>w\<rfloor>) c"

definition substring0 :: "string \<Rightarrow> rat \<Rightarrow> string" where
  "substring0 s w = take (nat \<lfloor>w\<rfloor>) s"

subsection \<open>Regular expressions\<close>

text \<open>
  The expressions of the source are sequences of quantified character classes, anchors,
  one lookbehind, one lookahead and capture groups that are not nested. \<open>Rep p lo hi\<close>
  is the greedy quantifier \<open>p{lo,hi}\<close> (\<open>hi = None\<close>: unbounded).
\<close>

datatype atom =
    Rep "char \<Rightarrow> bool" nat "nat option"
  | Bol        \<comment> \<open>\<open>^\<close>\<close>
  | Eol        \<comment> \<open>\<open>$\<close>\<close>
  | BolM       \<comment> \<open>\<open>^\<close> under the flag \<open>m\<close>\<close>
  | EolM       \<comment> \<open>\<open>$\<close> under the flag \<open>m\<close>\<close>
  | Behind "char \<Rightarrow> bool"   \<comment> \<open>\<open>(?<=p)\<close>\<close>

datatype item =
    A atom
  | Grp "atom list"     \<comment> \<open>\<open>( ... )\<close>\<close>
  | Ahead "atom list"   \<comment> \<open>\<open>(?= ... )\<close>\<close>

type_synonym regex = "item list"

abbreviation lit :: "char \<Rightarrow> atom" where
  "lit c \<equiv> Rep (\<lambda>x. x = c) 1 (Some 1)"

abbreviation star :: "(char \<Rightarrow> bool) \<Rightarrow> atom" where
  "star p \<equiv> Rep p 0 None"

abbreviation plus1 :: "(char \<Rightarrow> bool) \<Rightarrow> atom" where
  "plus1 p \<equiv> Rep p 1 None"

abbreviation opt :: "char \<Rightarrow> atom" where
  "opt c \<equiv> Rep (\<lambda>x. x = c) 0 (Some 1)"

abbreviation lits :: "string \<Rightarrow> item list" where
  "lits s \<equiv> map (\<lambda>c. A (lit c)) s"

text \<open>
  A position is the text before it, reversed, and the text after it. The matcher returns
  every way to match, first the one a backtracking engine finds first.
\<close>

fun atom_ms :: "atom \<Rightarrow> string \<Rightarrow> string \<Rightarrow> (string \<times> string) list" where
  "atom_ms (Rep p lo hi) prev rest =
     (let n = length (takeWhile p rest);
          m = (case hi of None \<Rightarrow> n | Some h \<Rightarrow> min h n)
      in map (\<lambda>k. (rev (take k rest) @ prev, drop k rest)) (rev [lo..<Suc m]))"
| "atom_ms Bol prev rest = (if prev = [] then [(prev, rest)] else [])"
| "atom_ms Eol prev rest = (if rest = [] then [(prev, rest)] else [])"
| "atom_ms BolM prev rest =
     (if prev = [] \<or> is_line_terminator (hd prev) then [(prev, rest)] else [])"
| "atom_ms EolM prev rest =
     (if rest = [] \<or> is_line_terminator (hd rest) then [(prev, rest)] else [])"
| "atom_ms (Behind p) prev rest =
     (if prev \<noteq> [] \<and> p (hd prev) then [(prev, rest)] else [])"

fun atoms_ms :: "atom list \<Rightarrow> string \<Rightarrow> string \<Rightarrow> (string \<times> string) list" where
  "atoms_ms [] prev rest = [(prev, rest)]"
| "atoms_ms (a # as) prev rest =
     concat (map (\<lambda>(p, r). atoms_ms as p r) (atom_ms a prev rest))"

fun items_ms :: "regex \<Rightarrow> string list \<Rightarrow> string \<Rightarrow> string \<Rightarrow> (string list \<times> string \<times> string) list" where
  "items_ms [] caps prev rest = [(caps, prev, rest)]"
| "items_ms (A a # is) caps prev rest =
     concat (map (\<lambda>(p, r). items_ms is caps p r) (atom_ms a prev rest))"
| "items_ms (Grp as # is) caps prev rest =
     concat (map (\<lambda>(p, r). items_ms is (caps @ [take (length rest - length r) rest]) p r)
       (atoms_ms as prev rest))"
| "items_ms (Ahead as # is) caps prev rest =
     (if atoms_ms as prev rest = [] then [] else items_ms is caps prev rest)"

text \<open>\<open>exec\<close> at one position: the matched text and the captures, or nothing.\<close>

definition exec :: "regex \<Rightarrow> string \<Rightarrow> string \<Rightarrow> (string \<times> string list) option" where
  "exec re prev rest =
     (case items_ms re [] prev rest of
        [] \<Rightarrow> None
      | (caps, p, r) # _ \<Rightarrow> Some (take (length rest - length r) rest, caps))"

text \<open>
  The scan of a global expression: the characters kept (\<open>Inl\<close>) and the matches
  (\<open>Inr\<close>), left to right. After an empty match the engine steps over one character.
\<close>

function scan :: "regex \<Rightarrow> string \<Rightarrow> string \<Rightarrow> (char + string \<times> string list) list" where
  "scan re prev [] = (case exec re prev [] of None \<Rightarrow> [] | Some m \<Rightarrow> [Inr m])"
| "scan re prev (c # cs) =
     (case exec re prev (c # cs) of
        None \<Rightarrow> Inl c # scan re (c # prev) cs
      | Some (w, caps) \<Rightarrow>
          if w = [] then Inr (w, caps) # Inl c # scan re (c # prev) cs
          else Inr (w, caps) # scan re (rev w @ prev) (drop (length w) (c # cs)))"
  by pat_completeness auto
termination
  by (relation "measure (\<lambda>(re, prev, rest). length rest)") auto

text \<open>\<open>s.replace(re, f)\<close> for a global \<open>re\<close>; \<open>f\<close> builds the replacement from a match.\<close>

definition replace_all :: "regex \<Rightarrow> (string \<times> string list \<Rightarrow> string) \<Rightarrow> string \<Rightarrow> string" where
  "replace_all re f s = concat (map (case_sum (\<lambda>c. [c]) f) (scan re [] s))"

text \<open>\<open>s.match(re)\<close> for a global \<open>re\<close>: the matched texts, or \<open>null\<close> when there are none.\<close>

definition match_all :: "regex \<Rightarrow> string \<Rightarrow> string list option" where
  "match_all re s =
     (case concat (map (case_sum (\<lambda>c. []) (\<lambda>m. [fst m])) (scan re [] s)) of
        [] \<Rightarrow> None
      | ms \<Rightarrow> Some ms)"

text \<open>\<open>s.match(re)\<close> used as a condition, for an expression without the flag \<open>g\<close>.\<close>

definition re_test :: "regex \<Rightarrow> string \<Rightarrow> bool" where
  "re_test re s \<longleftrightarrow> list_ex (\<lambda>x. \<not> isl x) (scan re [] s)"

subsection \<open>The expressions of the source\<close>

definition re_pipe :: regex where
  \<comment> \<open>\<open>/\|/g\<close>\<close>
  "re_pipe = [A (lit CHR ''|'')]"

definition re_location_br :: regex where
  \<comment> \<open>\<open>/([A-Za-z\s]+),\s*<br>\s*([A-Za-z\s]+)/g\<close>\<close>
  "re_location_br =
     [Grp [plus1 is_alpha_ws], A (lit CHR '',''), A (star is_ws)] @ lits ''<br>'' @
     [A (star is_ws), Grp [plus1 is_alpha_ws]]"

definition re_br :: regex where
  \<comment> \<open>\<open>/<br\s*\/?>/g\<close>\<close>
  "re_br = lits ''<br'' @ [A (star is_ws), A (opt CHR ''/''), A (lit CHR ''>'')]"

definition re_underline :: regex where
  \<comment> \<open>\<open>/<u>([^<>]*)<\/u>/g\<close>\<close>
  "re_underline = lits ''<u>'' @ [Grp [star not_angle]] @ lits ''</u>''"

definition re_em :: regex where
  \<comment> \<open>\<open>/<\/?em>/g\<close>\<close>
  "re_em = [A (lit CHR ''<''), A (opt CHR ''/'')] @ lits ''em>''"

definition re_strong :: regex where
  \<comment> \<open>\<open>/<\/?strong>/g\<close>\<close>
  "re_strong = [A (lit CHR ''<''), A (opt CHR ''/'')] @ lits ''strong>''"

definition re_spaces :: regex where
  \<comment> \<open>\<open>/\s+/g\<close>\<close>
  "re_spaces = [A (plus1 is_ws)]"

definition re_pipe_spacing :: regex where
  \<comment> \<open>\<open>/\s*\|\s*/g\<close>\<close>
  "re_pipe_spacing = [A (star is_ws), A (lit CHR ''|''), A (star is_ws)]"

definition re_separator :: regex where
  \<comment> \<open>\<open>/^\s*\|[\s\-\|]*\|\s*$/\<close>\<close>
  "re_separator =
     [A Bol, A (star is_ws), A (lit CHR ''|''), A (star is_sep_char), A (lit CHR ''|''),
      A (star is_ws), A Eol]"

definition re_location :: regex where
  \<comment> \<open>\<open>/([A-Za-z\s]+),\s*([A-Za-z\s]+)/g\<close>\<close>
  "re_location =
     [Grp [plus1 is_alpha_ws], A (lit CHR '',''), A (star is_ws), Grp [plus1 is_alpha_ws]]"

definition re_footnote :: regex where
  \<comment> \<open>\<open>/(?<=\s)\d{1,2}(?=\s+[A-Z][a-z])/g\<close>\<close>
  "re_footnote =
     [A (Behind is_ws), A (Rep is_digit 1 (Some 2)),
      Ahead [plus1 is_ws, Rep is_upper 1 (Some 1), Rep is_lower 1 (Some 1)]]"

definition re_blank_lines :: regex where
  \<comment> \<open>\<open>/\n\s*\n\s*\n+/g\<close>\<close>
  "re_blank_lines =
     [A (lit CHR 0x0A), A (star is_ws), A (lit CHR 0x0A), A (star is_ws),
      A (plus1 (\<lambda>x. x = CHR 0x0A))]"

definition re_empty_header :: regex where
  \<comment> \<open>\<open>/^#+\s*$/gm\<close>\<close>
  "re_empty_header = [A BolM, A (plus1 (\<lambda>x. x = CHR ''#'')), A (star is_ws), A EolM]"

definition re_broken_url :: regex where
  \<comment> \<open>\<open>/(https?:\/\/[^\s<>]+)<br>([^\s<>]+)/g\<close>\<close>
  "re_broken_url =
     [Grp ([lit CHR ''h'', lit CHR ''t'', lit CHR ''t'', lit CHR ''p'', opt CHR ''s'',
            lit CHR '':'', lit CHR ''/'', lit CHR ''/'', plus1 url_char])] @
     lits ''<br>'' @ [Grp [plus1 url_char]]"

text \<open>The replacement texts: a constant, \<open>$1\<close>, \<open>$1, $2\<close> and \<open>$1$2\<close>.\<close>

definition const_repl :: "string \<Rightarrow> string \<times> string list \<Rightarrow> string" where
  "const_repl t m = t"

definition group1 :: "string \<times> string list \<Rightarrow> string" where
  "group1 m = (case snd m of g1 # _ \<Rightarrow> g1 | [] \<Rightarrow> [])"

definition group1_comma_group2 :: "string \<times> string list \<Rightarrow> string" where
  "group1_comma_group2 m = (case snd m of g1 # g2 # _ \<Rightarrow> g1 @ '', '' @ g2 | _ \<Rightarrow> [])"

definition group1_group2 :: "string \<times> string list \<Rightarrow> string" where
  "group1_group2 m = (case snd m of g1 # g2 # _ \<Rightarrow> g1 @ g2 | _ \<Rightarrow> [])"

subsection \<open>Line cleaners\<close>

definition cleanTableLine :: "string \<Rightarrow> string" where
  "cleanTableLine line =
     (let line = replace_all re_location_br group1_comma_group2 line;
          line = replace_all re_br (const_repl '' '') line;
          line = replace_all re_underline group1 line;
          line = replace_all re_em (const_repl []) line;
          line = replace_all re_strong (const_repl []) line;
          line = replace_all re_spaces (const_repl '' '') line;
          line = replace_all re_pipe_spacing (const_repl '' | '') line
      in trim line)"

definition cleanRegularLine :: "string \<Rightarrow> string" where
  "cleanRegularLine line =
     (let line = replace_all re_br (const_repl '' '') line;
          line = replace_all re_underline group1 line;
          line = replace_all re_em (const_repl []) line;
          line = replace_all re_strong (const_repl []) line;
          line = replace_all re_location group1_comma_group2 line;
          line = replace_all re_footnote (const_repl []) line;
          line = replace_all re_spaces (const_repl '' '') line
      in trim line)"

definition collapse_blank_lines :: "string \<Rightarrow> string" where
  \<comment> \<open>the first statement of \<open>applyGlobalCleanups\<close> (``fix paragraph spacing'')\<close>
  "collapse_blank_lines text = replace_all re_blank_lines (const_repl [CHR 0x0A, CHR 0x0A]) text"

definition applyGlobalCleanups :: "string \<Rightarrow> string" where
  "applyGlobalCleanups text =
     (let text = collapse_blank_lines text;
          text = replace_all re_empty_header (const_repl []) text;
          text = replace_all re_broken_url group1_group2 text
      in text)"

subsection \<open>\<open>formatTableRegion\<close>\<close>

text \<open>
  The cells of one line: split on the pipe, trim every piece, and drop a piece that is
  empty and stands first or last.
\<close>

definition parse_cells :: "string \<Rightarrow> string list" where
  "parse_cells line =
     (let arr = map trim (split_on CHR ''|'' line)
      in map snd
           (filter (\<lambda>(index, cell). \<not> (cell = [] \<and> (index = 0 \<or> index = length arr - 1)))
              (zip [0..<length arr] arr)))"

definition is_data_line :: "string \<Rightarrow> bool" where
  \<comment> \<open>\<open>line.trim() && !line.match(/^\s*\|[\s\-\|]*\|\s*$/)\<close>\<close>
  "is_data_line line \<longleftrightarrow> trim line \<noteq> [] \<and> \<not> re_test re_separator line"

fun parse_rows :: "string list \<Rightarrow> string list list" where
  "parse_rows [] = []"
| "parse_rows (line # tableLines) =
     (if is_data_line line then
        (let cells = parse_cells line
         in if length cells > 0 then cells # parse_rows tableLines else parse_rows tableLines)
      else parse_rows tableLines)"

text \<open>
  \<open>Math.max(...xs)\<close> on lengths; it is called on non-empty arrays only (on an empty one
  it would be \<open>-Infinity\<close>).
\<close>

definition math_max :: "nat list \<Rightarrow> nat" where
  "math_max xs = foldl max 0 xs"

definition maxColumns :: "string list list \<Rightarrow> nat" where
  "maxColumns rows = math_max (map length rows)"

text \<open>\<open>row[col]\<close> is \<open>undefined\<close> past the end of the row; an empty cell is falsy as well.\<close>

definition cell_truthy :: "string list \<Rightarrow> nat \<Rightarrow> bool" where
  "cell_truthy row col \<longleftrightarrow> col < length row \<and> row ! col \<noteq> []"

definition cell_or_empty :: "string list \<Rightarrow> nat \<Rightarrow> string" where
  \<comment> \<open>\<open>row[col] || ''\<close>\<close>
  "cell_or_empty row col = (if cell_truthy row col then row ! col else [])"

fun cellLengths :: "string list list \<Rightarrow> nat \<Rightarrow> nat list" where
  "cellLengths [] col = []"
| "cellLengths (row # rows) col =
     (if cell_truthy row col then length (row ! col) # cellLengths rows col
      else cellLengths rows col)"

definition column_width :: "string list list \<Rightarrow> nat \<Rightarrow> rat" where
  "column_width rows col =
     (let lens = cellLengths rows col
      in if length lens > 0 then
           (let avgLength = rat_of_nat (foldl (+) 0 lens) / rat_of_nat (length lens);
                maxLength = math_max lens
            in if maxLength \<le> 25 then rat_of_nat (max maxLength 8)
               else if maxLength \<le> 60 then
                 max (min (rat_of_int \<lfloor>rat_of_nat maxLength * 4 / 5\<rfloor>) (avgLength + 10)) 15
               else min 50 (max 30 avgLength))
         else 8)"

definition columnWidths :: "string list list \<Rightarrow> rat list" where
  "columnWidths rows = map (column_width rows) [0..<maxColumns rows]"

text \<open>The word loop of the truncation, with its \<open>break\<close>.\<close>

fun accumulate_words :: "rat \<Rightarrow> string \<Rightarrow> string list \<Rightarrow> string" where
  "accumulate_words width result [] = result"
| "accumulate_words width result (word # words) =
     (if rat_of_nat (length (result @ word)) \<le> width - 3
      then accumulate_words width (result @ (if result \<noteq> [] then '' '' else []) @ word) words
      else result)"

definition truncation_buffer :: "rat \<Rightarrow> string \<Rightarrow> string" where
  "truncation_buffer width cell =
     (let result = accumulate_words width [] (split_on CHR '' '' cell)
      in if length result = 0 then substring0 cell (width - 3) else result)"

definition format_cell :: "rat \<Rightarrow> string \<Rightarrow> string" where
  "format_cell width cell =
     (if rat_of_nat (length cell) \<le> width then padEnd cell width
      else if rat_of_nat (length cell) > width
        then padEnd (truncation_buffer width cell @ ''...'') width
        else padEnd cell width)"

definition table_line :: "string list \<Rightarrow> string" where
  \<comment> \<open>\<open>'| ' + cells.join(' | ') + ' |'\<close>\<close>
  "table_line cells = ''| '' @ join_with '' | '' cells @ '' |''"

definition format_row :: "rat list \<Rightarrow> string list \<Rightarrow> string list" where
  "format_row widths row =
     map (\<lambda>col. format_cell (widths ! col) (cell_or_empty row col)) [0..<length widths]"

definition separator_cells :: "rat list \<Rightarrow> string list" where
  "separator_cells widths = map (repeat CHR ''-'') widths"

fun format_rows :: "rat list \<Rightarrow> nat \<Rightarrow> string list list \<Rightarrow> string list" where
  "format_rows widths rowIndex [] = []"
| "format_rows widths rowIndex (row # rows) =
     table_line (format_row widths row) #
     (if rowIndex = 0 then [table_line (separator_cells widths)] else []) @
     format_rows widths (Suc rowIndex) rows"

definition formatTableRegion :: "string list \<Rightarrow> string list" where
  "formatTableRegion tableLines =
     (if length tableLines < 2 then tableLines
      else (let rows = parse_rows tableLines
            in if length rows = 0 then tableLines
               else format_rows (columnWidths rows) 0 rows))"

subsection \<open>\<open>improvedCleanMarkerOutput\<close>\<close>

definition isTableLine :: "string \<Rightarrow> bool" where
  \<comment> \<open>\<open>(line.match(/\|/g) || []).length >= 2\<close>\<close>
  "isTableLine line \<longleftrightarrow>
     length (case match_all re_pipe line of None \<Rightarrow> [] | Some ms \<Rightarrow> ms) \<ge> 2"

record scan_state =
  inTable :: bool
  currentTableStart :: "int option"
  tableRegions :: "(int \<times> int) list"

definition region_step :: "int \<Rightarrow> string \<Rightarrow> scan_state \<Rightarrow> scan_state" where
  "region_step i line st =
     (if isTableLine line \<and> \<not> inTable st then
        st\<lparr>inTable := True, currentTableStart := Some i\<rparr>
      else if \<not> isTableLine line \<and> inTable st then
        (case currentTableStart st of
           Some start \<Rightarrow>
             st\<lparr>inTable := False, tableRegions := tableRegions st @ [(start, i - 1)],
                currentTableStart := None\<rparr>
         | None \<Rightarrow> st\<lparr>inTable := False\<rparr>)
      else st)"

fun region_loop :: "int \<Rightarrow> string list \<Rightarrow> scan_state \<Rightarrow> scan_state" where
  "region_loop i [] st = st"
| "region_loop i (line # rest) st = region_loop (i + 1) rest (region_step i line st)"

definition find_table_regions :: "string list \<Rightarrow> (int \<times> int) list" where
  "find_table_regions lines =
     (let st = region_loop 0 lines \<lparr>inTable = False, currentTableStart = None, tableRegions = []\<rparr>
      in case (inTable st, currentTableStart st) of
           (True, Some start) \<Rightarrow> tableRegions st @ [(start, int (length lines) - 1)]
         | _ \<Rightarrow> tableRegions st)"

datatype error = TypeError

definition line_at :: "string list \<Rightarrow> int \<Rightarrow> error + string" where
  \<comment> \<open>\<open>lines[i]\<close>, handed to a cleaner\<close>
  "line_at lines i =
     (if 0 \<le> i \<and> i < int (length lines) then Inr (lines ! nat i) else Inl TypeError)"

text \<open>
  The second step walks the regions. The three callees are parameters (each is told the
  index of the line as well), so that the same walk can be run with the cleaners of the
  source and with recorders that only say which branch a line took.
\<close>

fun push_lines :: "(int \<Rightarrow> string \<Rightarrow> 'a) \<Rightarrow> string list \<Rightarrow> int list \<Rightarrow> error + 'a list" where
  "push_lines f lines [] = Inr []"
| "push_lines f lines (i # is) =
     (case line_at lines i of
        Inl e \<Rightarrow> Inl e
      | Inr line \<Rightarrow>
          (case push_lines f lines is of Inl e \<Rightarrow> Inl e | Inr out \<Rightarrow> Inr (f i line # out)))"

fun assemble ::
  "(int \<Rightarrow> string \<Rightarrow> 'a) \<Rightarrow> (int \<Rightarrow> string \<Rightarrow> 'b) \<Rightarrow> ('b list \<Rightarrow> 'a list) \<Rightarrow>
   string list \<Rightarrow> int \<Rightarrow> (int \<times> int) list \<Rightarrow> error + 'a list" where
  "assemble regular table fmt lines processedLines [] =
     push_lines regular lines [processedLines..int (length lines) - 1]"
| "assemble regular table fmt lines processedLines ((tableStart, tableEnd) # regions) =
     (case push_lines regular lines [processedLines..tableStart - 1] of
        Inl e \<Rightarrow> Inl e
      | Inr leading \<Rightarrow>
          (case push_lines table lines [tableStart..tableEnd] of
             Inl e \<Rightarrow> Inl e
           | Inr tableLines \<Rightarrow>
               (case assemble regular table fmt lines (tableEnd + 1) regions of
                  Inl e \<Rightarrow> Inl e
                | Inr rest \<Rightarrow> Inr (leading @ fmt tableLines @ rest))))"

definition cleanedLines :: "string list \<Rightarrow> error + string list" where
  "cleanedLines lines =
     assemble (\<lambda>i. cleanRegularLine) (\<lambda>i. cleanTableLine) formatTableRegion lines 0
       (find_table_regions lines)"

definition improvedCleanMarkerOutput :: "string \<Rightarrow> error + string" where
  "improvedCleanMarkerOutput text =
     (case cleanedLines (split_on CHR 0x0A text) of
        Inl e \<Rightarrow> Inl e
      | Inr out \<Rightarrow> Inr (trim (applyGlobalCleanups (join_with [CHR 0x0A] out))))"

text \<open>The branch a line index takes in the walk.\<close>

datatype emitted = ViaProse int | ViaTable "int list"

definition emission_trace :: "string list \<Rightarrow> error + emitted list" where
  "emission_trace lines =
     assemble (\<lambda>i line. ViaProse i) (\<lambda>i line. i) (\<lambda>is. [ViaTable is]) lines 0
       (find_table_regions lines)"

subsection \<open>\<open>cleanMarkerOutput\<close>\<close>

text \<open>The values a caller can pass at run time.\<close>

datatype jsval =
    JUndefined | JNull | JBoolean bool | JNumber rat | JNaN | JString string | JObject

definition truthy :: "jsval \<Rightarrow> bool" where
  "truthy v =
     (case v of
        JUndefined \<Rightarrow> False | JNull \<Rightarrow> False | JBoolean b \<Rightarrow> b | JNumber x \<Rightarrow> x \<noteq> 0
      | JNaN \<Rightarrow> False | JString s \<Rightarrow> s \<noteq> [] | JObject \<Rightarrow> True)"

definition is_string :: "jsval \<Rightarrow> bool" where
  \<comment> \<open>\<open>typeof v === 'string'\<close>\<close>
  "is_string v = (case v of JString s \<Rightarrow> True | _ \<Rightarrow> False)"

definition cleanMarkerOutput :: "jsval \<Rightarrow> error + jsval" where
  "cleanMarkerOutput markdownContent =
     (if \<not> truthy markdownContent \<or> \<not> is_string markdownContent then Inr markdownContent
      else (case markdownContent of
              JString text \<Rightarrow>
                (case improvedCleanMarkerOutput text of Inl e \<Rightarrow> Inl e | Inr s \<Rightarrow> Inr (JString s))
            | _ \<Rightarrow> Inr markdownContent))"

section \<open>Notions used to state the properties\<close>

subsection \<open>Regions and the branch each line takes\<close>

definition table_at :: "string list \<Rightarrow> int \<Rightarrow> bool" where
  "table_at lines i \<longleftrightarrow> isTableLine (lines ! nat i)"

text \<open>
  \<open>regions_ok lines p rs\<close>: from index \<open>p\<close> on, the regions \<open>rs\<close> are the runs of table
  lines of \<open>lines\<close>, in order; every other line is not a table line.
\<close>

fun regions_ok :: "string list \<Rightarrow> int \<Rightarrow> (int \<times> int) list \<Rightarrow> bool" where
  "regions_ok lines p [] \<longleftrightarrow> (\<forall>i. p \<le> i \<and> i < int (length lines) \<longrightarrow> \<not> table_at lines i)"
| "regions_ok lines p ((s, e) # rs) \<longleftrightarrow>
     p \<le> s \<and> s \<le> e \<and> e < int (length lines) \<and>
     (\<forall>i. p \<le> i \<and> i < s \<longrightarrow> \<not> table_at lines i) \<and>
     (\<forall>i. s \<le> i \<and> i \<le> e \<longrightarrow> table_at lines i) \<and>
     (e + 1 < int (length lines) \<longrightarrow> \<not> table_at lines (e + 1)) \<and>
     regions_ok lines (e + 1) rs"

text \<open>The regions after the loop, with the one still open closed at the last line.\<close>

definition flush :: "int \<Rightarrow> scan_state \<Rightarrow> (int \<times> int) list" where
  "flush n st = (case (inTable st, currentTableStart st) of
           (True, Some start) \<Rightarrow> tableRegions st @ [(start, n - 1)]
         | _ \<Rightarrow> tableRegions st)"

text \<open>\<open>open_ok lines s i new\<close>: \<open>new\<close> starts with the run that was open at \<open>s\<close> when the
  loop stood at \<open>i\<close>.\<close>

definition open_ok :: "string list \<Rightarrow> int \<Rightarrow> int \<Rightarrow> (int \<times> int) list \<Rightarrow> bool" where
  "open_ok lines s i new \<longleftrightarrow>
     (\<exists>e rs. new = (s, e) # rs \<and> i - 1 \<le> e \<and> e < int (length lines) \<and>
        (\<forall>j. s \<le> j \<and> j \<le> e \<longrightarrow> table_at lines j) \<and>
        (e + 1 < int (length lines) \<longrightarrow> \<not> table_at lines (e + 1)) \<and>
        regions_ok lines (e + 1) rs)"

text \<open>What the walk produces when no read is out of range.\<close>

fun walk :: "(int \<Rightarrow> string \<Rightarrow> 'a) \<Rightarrow> (int \<Rightarrow> string \<Rightarrow> 'b) \<Rightarrow> ('b list \<Rightarrow> 'a list) \<Rightarrow>
   string list \<Rightarrow> int \<Rightarrow> (int \<times> int) list \<Rightarrow> 'a list" where
  "walk f g fmt lines p [] = map (\<lambda>i. f i (lines ! nat i)) [p..int (length lines) - 1]"
| "walk f g fmt lines p ((s, e) # rs) =
     map (\<lambda>i. f i (lines ! nat i)) [p..s - 1] @ fmt (map (\<lambda>i. g i (lines ! nat i)) [s..e]) @
     walk f g fmt lines (e + 1) rs"

abbreviation trace_walk :: "string list \<Rightarrow> int \<Rightarrow> (int \<times> int) list \<Rightarrow> emitted list" where
  "trace_walk \<equiv> walk (\<lambda>i line. ViaProse i) (\<lambda>i line. i) (\<lambda>is. [ViaTable is])"

fun emitted_indices :: "emitted \<Rightarrow> int list" where
  "emitted_indices (ViaProse i) = [i]"
| "emitted_indices (ViaTable is) = is"

fun via_table :: "emitted \<Rightarrow> bool" where
  "via_table (ViaProse i) = False"
| "via_table (ViaTable is) = True"

text \<open>The output lines of one entry of the trace.\<close>

fun emit :: "string list \<Rightarrow> emitted \<Rightarrow> string list" where
  "emit lines (ViaProse i) = [cleanRegularLine (lines ! nat i)]"
| "emit lines (ViaTable is) = formatTableRegion (map (\<lambda>i. cleanTableLine (lines ! nat i)) is)"

subsection \<open>Column widths as the specification words them\<close>




subsection \<open>A rendered cell\<close>

text \<open>
  \<open>well_rendered w cell out\<close>: \<open>out\<close> is what a column of width \<open>w\<close> shows for
  \<open>cell\<close>. A cell that fits is padded to \<open>\<lfloor>w\<rfloor>\<close> characters. A longer cell is the
  truncation buffer, the ellipsis and then the padding; it has \<open>\<lfloor>w\<rfloor>\<close> characters when
  the buffer left room for the ellipsis, as it does whenever no whole word was taken.
\<close>

definition well_rendered :: "rat \<Rightarrow> string \<Rightarrow> string \<Rightarrow> bool" where
  "well_rendered w cell out \<longleftrightarrow>
     (if rat_of_nat (length cell) \<le> w
      then out = cell @ replicate (nat \<lfloor>w\<rfloor> - length cell) CHR '' '' \<and> length out = nat \<lfloor>w\<rfloor>
      else (let buffer = truncation_buffer w cell
            in out = buffer @ ''...'' @ replicate (nat \<lfloor>w\<rfloor> - (length buffer + 3)) CHR '' '' \<and>
               (rat_of_nat (length buffer) \<le> w - 3 \<or>
                accumulate_words w [] (split_on CHR '' '' cell) = []
                \<longrightarrow> length out = nat \<lfloor>w\<rfloor>)))"

subsection \<open>Expressions made of quantified classes only\<close>





abbreviation LF :: char where "LF \<equiv> CHR 0x0A"


section \<open>The line classifier\<close>

lemma exec_re_pipe:
  "exec re_pipe prev rest =
     (case rest of [] \<Rightarrow> None | c # cs \<Rightarrow> if c = CHR ''|'' then Some ([CHR ''|''], []) else None)"
  by (cases rest) (simp_all add: exec_def re_pipe_def)

lemma scan_re_pipe:
  "concat (map (case_sum (\<lambda>c. []) (\<lambda>m. [fst m])) (scan re_pipe prev s)) =
     replicate (count_list s CHR ''|'') [CHR ''|'']"
  by (induction s arbitrary: prev) (simp_all add: exec_re_pipe)

lemma isTableLine_iff: "isTableLine line \<longleftrightarrow> 2 \<le> count_list line CHR ''|''"
  apply (simp add: isTableLine_def match_all_def scan_re_pipe split: list.splits)
  apply (cases "count_list line CHR ''|''")
   apply simp
  subgoal for n by (cases n) auto
  done

text \<open>
  Claim C5. A line gets the table verdict if and only if it holds at least two pipe
  characters; so a line with exactly one pipe never gets it and a line with exactly two
  always does.
\<close>

theorem classifier_counts_pipes:
  "(isTableLine line \<longleftrightarrow> 2 \<le> count_list line CHR ''|'') \<and>
   (count_list line CHR ''|'' = 1 \<longrightarrow> \<not> isTableLine line) \<and>
   (count_list line CHR ''|'' = 2 \<longrightarrow> isTableLine line)"
  by (simp add: isTableLine_iff)

theorem classifier_counts_pipes_witness:
  "\<not> isTableLine ''a | b'' \<and> isTableLine ''| a |''"
  using classifier_counts_pipes [of "''a | b''"] classifier_counts_pipes [of "''| a |''"]
  by simp

section \<open>Regions, the walk and its trace\<close>

lemma regions_ok_extend:
  assumes a: "\<not> table_at lines i" "regions_ok lines (i + 1) rs"
  shows "regions_ok lines i rs"
proof (cases rs)
  case Nil
  have "\<not> table_at lines j" if "i \<le> j" "j < int (length lines)" for j
    using that a Nil by (cases "j = i") auto
  then show ?thesis unfolding Nil by simp
next
  case (Cons r rs')
  obtain s e where r: "r = (s, e)" by (cases r)
  have "\<not> table_at lines j" if "i \<le> j" "j < s" for j
    using that a Cons r by (cases "j = i") auto
  then show ?thesis using a Cons r by auto
qed

lemma drop_step:
  assumes "l # ls = drop (nat i) lines" "0 \<le> i"
  shows "i < int (length lines)" "l = lines ! nat i" "ls = drop (nat (i + 1)) lines"
proof -
  have n: "nat i < length lines"
    using assms(1) by (metis drop_all list.distinct(1) not_le_imp_less)
  then show "i < int (length lines)" using assms(2) by linarith
  show "l = lines ! nat i"
    using assms(1) n by (metis Cons_nth_drop_Suc list.inject)
  have "nat (i + 1) = Suc (nat i)" using assms(2) by simp
  then show "ls = drop (nat (i + 1)) lines"
    using assms(1) n by (metis Cons_nth_drop_Suc list.inject)
qed

lemma region_loop_ok:
  assumes "ls = drop (nat i) lines" "0 \<le> i" "i \<le> int (length lines)"
  shows "(\<not> inTable st \<longrightarrow>
            (\<exists>new. flush (int (length lines)) (region_loop i ls st) = tableRegions st @ new \<and>
                   regions_ok lines i new)) \<and>
         (\<forall>s. inTable st \<and> currentTableStart st = Some s \<and> s < i \<and>
              (\<forall>j. s \<le> j \<and> j < i \<longrightarrow> table_at lines j) \<longrightarrow>
            (\<exists>new. flush (int (length lines)) (region_loop i ls st) = tableRegions st @ new \<and>
                   open_ok lines s i new))"
  using assms
proof (induction ls arbitrary: i st)
  case Nil
  then have i: "int (length lines) = i" by simp
  show ?case
    using i by (auto simp: flush_def open_ok_def)
next
  case (Cons l ls)
  note d = drop_step [OF Cons.prems(1,2)]
  have tb: "isTableLine l = table_at lines i" by (simp add: table_at_def d(2))
  have i1: "0 \<le> i + 1" using Cons.prems by simp
  have i2: "i + 1 \<le> int (length lines)" using d(1) by simp
  note IH = Cons.IH [OF d(3) i1 i2]
  show ?case
  proof (intro conjI impI allI)
    assume nin: "\<not> inTable st"
    show "\<exists>new. flush (int (length lines)) (region_loop i (l # ls) st) = tableRegions st @ new \<and>
                   regions_ok lines i new"
    proof (cases "isTableLine l")
      case True
      let ?st = "st\<lparr>inTable := True, currentTableStart := Some i\<rparr>"
      have step: "region_step i l st = ?st" using True nin by (simp add: region_step_def)
      have "\<forall>j. i \<le> j \<and> j < i + 1 \<longrightarrow> table_at lines j"
        using True tb by (auto simp: order.antisym)
      with IH [of ?st] obtain new where
        new: "flush (int (length lines)) (region_loop (i + 1) ls ?st) = tableRegions st @ new"
          "open_ok lines i (i + 1) new"
        by auto
      from new(2) have "regions_ok lines i new"
        by (auto simp: open_ok_def)
      then show ?thesis using new(1) step by auto
    next
      case False
      have step: "region_step i l st = st" using False nin by (simp add: region_step_def)
      from IH [of st] nin obtain new where
        new: "flush (int (length lines)) (region_loop (i + 1) ls st) = tableRegions st @ new"
          "regions_ok lines (i + 1) new"
        by auto
      have "regions_ok lines i new"
        using regions_ok_extend [OF _ new(2)] False tb by simp
      then show ?thesis using new(1) step by auto
    qed
  next
    fix s
    assume a: "inTable st \<and> currentTableStart st = Some s \<and> s < i \<and>
              (\<forall>j. s \<le> j \<and> j < i \<longrightarrow> table_at lines j)"
    show "\<exists>new. flush (int (length lines)) (region_loop i (l # ls) st) = tableRegions st @ new \<and>
                   open_ok lines s i new"
    proof (cases "isTableLine l")
      case True
      have step: "region_step i l st = st" using True a by (simp add: region_step_def)
      have "\<forall>j. s \<le> j \<and> j < i + 1 \<longrightarrow> table_at lines j"
      proof (intro allI impI)
        fix j assume "s \<le> j \<and> j < i + 1"
        then show "table_at lines j" using a True tb by (cases "j = i") auto
      qed
      with IH [of st] a obtain new where
        new: "flush (int (length lines)) (region_loop (i + 1) ls st) = tableRegions st @ new"
          "open_ok lines s (i + 1) new"
        by auto
      from new(2) have "open_ok lines s i new" by (auto simp: open_ok_def)
      then show ?thesis using new(1) step by auto
    next
      case False
      let ?st = "st\<lparr>inTable := False, tableRegions := tableRegions st @ [(s, i - 1)],
                currentTableStart := None\<rparr>"
      have step: "region_step i l st = ?st" using False a by (simp add: region_step_def)
      from IH [of ?st] obtain new where
        new: "flush (int (length lines)) (region_loop (i + 1) ls ?st) = (tableRegions st @ [(s, i - 1)]) @ new"
          "regions_ok lines (i + 1) new"
        by auto
      have r: "regions_ok lines i new"
        using regions_ok_extend [OF _ new(2)] False tb by simp
      have "open_ok lines s i ((s, i - 1) # new)"
        unfolding open_ok_def using a r d(1) False tb by auto
      then show ?thesis using new(1) step by auto
    qed
  qed
qed

lemma find_table_regions_ok: "regions_ok lines 0 (find_table_regions lines)"
proof -
  let ?st = "\<lparr>inTable = False, currentTableStart = None, tableRegions = []\<rparr>"
  have "find_table_regions lines = flush (int (length lines)) (region_loop 0 lines ?st)"
    by (simp add: find_table_regions_def flush_def Let_def)
  moreover have "\<exists>new. flush (int (length lines)) (region_loop 0 lines ?st) = tableRegions ?st @ new \<and>
                   regions_ok lines 0 new"
    using region_loop_ok [of lines 0 lines ?st] by simp
  ultimately show ?thesis by auto
qed

lemma push_lines_in_range:
  "\<forall>i\<in>set is. 0 \<le> i \<and> i < int (length lines) \<Longrightarrow>
     push_lines f lines is = Inr (map (\<lambda>i. f i (lines ! nat i)) is)"
  by (induction "is") (simp_all add: line_at_def)

lemma push_lines_upto:
  "0 \<le> a \<Longrightarrow> b < int (length lines) \<Longrightarrow>
     push_lines f lines [a..b] = Inr (map (\<lambda>i. f i (lines ! nat i)) [a..b])"
  by (rule push_lines_in_range) auto

lemma assemble_ok:
  "regions_ok lines p rs \<Longrightarrow> 0 \<le> p \<Longrightarrow>
     assemble f g fmt lines p rs = Inr (walk f g fmt lines p rs)"
proof (induction rs arbitrary: p)
  case Nil
  then show ?case by (simp add: push_lines_upto)
next
  case (Cons r rs)
  obtain s e where r: "r = (s, e)" by (cases r)
  from Cons.prems r have b: "p \<le> s" "s \<le> e" "e < int (length lines)" "regions_ok lines (e + 1) rs"
    by auto
  have 1: "push_lines f lines [p..s - 1] = Inr (map (\<lambda>i. f i (lines ! nat i)) [p..s - 1])"
    using Cons.prems(2) b by (intro push_lines_upto) auto
  have 2: "push_lines g lines [s..e] = Inr (map (\<lambda>i. g i (lines ! nat i)) [s..e])"
    using Cons.prems(2) b by (intro push_lines_upto) auto
  have 3: "assemble f g fmt lines (e + 1) rs = Inr (walk f g fmt lines (e + 1) rs)"
    using Cons.IH [OF b(4)] Cons.prems(2) b by simp
  show ?case by (simp add: r 1 2 3)
qed

lemma trace_indices:
  "regions_ok lines p rs \<Longrightarrow> p \<le> int (length lines) \<Longrightarrow>
     concat (map emitted_indices (trace_walk lines p rs)) = [p..int (length lines) - 1]"
proof (induction rs arbitrary: p)
  case Nil
  have "concat (map emitted_indices (map ViaProse xs)) = xs" for xs
    by (induction xs) auto
  then show ?case by (simp add: comp_def)
next
  case (Cons r rs)
  obtain s e where r: "r = (s, e)" by (cases r)
  from Cons.prems r have b: "p \<le> s" "s \<le> e" "e < int (length lines)" "regions_ok lines (e + 1) rs"
    by auto
  have m: "concat (map emitted_indices (map ViaProse xs)) = xs" for xs
    by (induction xs) auto
  have "concat (map emitted_indices (trace_walk lines p (r # rs))) =
        [p..s - 1] @ [s..e] @ [e + 1..int (length lines) - 1]"
    using Cons.IH [OF b(4)] b m by (simp add: r comp_def)
  also have "\<dots> = [p..e] @ [e + 1..int (length lines) - 1]"
    using upto_split1 [of p s e] b by simp
  also have "\<dots> = [p..int (length lines) - 1]"
    using upto_split2 [of p e "int (length lines) - 1"] b by simp
  finally show ?case .
qed

lemma trace_prose:
  "regions_ok lines p rs \<Longrightarrow> ViaProse i \<in> set (trace_walk lines p rs) \<Longrightarrow>
     \<not> table_at lines i"
proof (induction rs arbitrary: p)
  case Nil
  then show ?case by auto
next
  case (Cons r rs)
  obtain s e where r: "r = (s, e)" by (cases r)
  from Cons.prems(2) consider "p \<le> i \<and> i < s" | "ViaProse i \<in> set (trace_walk lines (e + 1) rs)"
    by (auto simp: r)
  then show ?case
  proof cases
    case 1
    then show ?thesis using Cons.prems(1) r by auto
  next
    case 2
    then show ?thesis using Cons.IH [of "e + 1"] Cons.prems(1) r by auto
  qed
qed

lemma trace_tables:
  "filter via_table (trace_walk lines p rs) = map (\<lambda>(s, e). ViaTable [s..e]) rs"
proof (induction rs arbitrary: p)
  case Nil
  have "filter via_table (map ViaProse xs) = []" for xs by (induction xs) auto
  then show ?case by simp
next
  case (Cons r rs)
  obtain s e where r: "r = (s, e)" by (cases r)
  have "filter via_table (map ViaProse xs) = []" for xs by (induction xs) auto
  then show ?case using Cons.IH by (simp add: r)
qed

lemma regions_maximal:
  "regions_ok lines p rs \<Longrightarrow> p = 0 \<or> (p < int (length lines) \<longrightarrow> \<not> table_at lines p) \<Longrightarrow>
   0 \<le> p \<Longrightarrow> (s, e) \<in> set rs \<Longrightarrow>
     0 \<le> s \<and> s \<le> e \<and> e < int (length lines) \<and>
     (\<forall>i. s \<le> i \<and> i \<le> e \<longrightarrow> table_at lines i) \<and>
     (s = 0 \<or> \<not> table_at lines (s - 1)) \<and>
     (e = int (length lines) - 1 \<or> \<not> table_at lines (e + 1))"
proof (induction rs arbitrary: p)
  case Nil
  then show ?case by simp
next
  case (Cons r rs)
  obtain s' e' where r: "r = (s', e')" by (cases r)
  from Cons.prems(1) r have b: "p \<le> s'" "s' \<le> e'" "e' < int (length lines)"
    "\<forall>i. p \<le> i \<and> i < s' \<longrightarrow> \<not> table_at lines i"
    "\<forall>i. s' \<le> i \<and> i \<le> e' \<longrightarrow> table_at lines i"
    "e' + 1 < int (length lines) \<longrightarrow> \<not> table_at lines (e' + 1)"
    "regions_ok lines (e' + 1) rs"
    by auto
  show ?case
  proof (cases "(s, e) = (s', e')")
    case True
    have "table_at lines s'" using b by auto
    then have "s' = 0 \<or> p < s'" using Cons.prems(2) b by (cases "p = s'") auto
    then have "s' = 0 \<or> \<not> table_at lines (s' - 1)" using b(4) by auto
    moreover have "e' = int (length lines) - 1 \<or> \<not> table_at lines (e' + 1)"
      using b(3,6) by (cases "e' + 1 < int (length lines)") auto
    ultimately show ?thesis using True b Cons.prems(3) by auto
  next
    case False
    then have "(s, e) \<in> set rs" using Cons.prems(4) r by auto
    then show ?thesis using Cons.IH [OF b(7)] b Cons.prems(3) by auto
  qed
qed

lemma regions_ok_mem:
  "regions_ok lines p rs \<Longrightarrow> (s, e) \<in> set rs \<Longrightarrow>
     s \<le> e \<and> e < int (length lines) \<and> table_at lines s"
  by (induction rs arbitrary: p) auto

lemma regions_separated:
  "regions_ok lines p rs \<Longrightarrow>
     sorted_wrt (\<lambda>(s1, e1) (s2, e2). e1 + 1 < s2) rs \<and> (\<forall>(s, e)\<in>set rs. p \<le> s)"
proof (induction rs arbitrary: p)
  case Nil
  then show ?case by simp
next
  case (Cons r rs)
  obtain s e where r: "r = (s, e)" by (cases r)
  from Cons.prems r have b: "p \<le> s" "s \<le> e" "e < int (length lines)"
    "e + 1 < int (length lines) \<longrightarrow> \<not> table_at lines (e + 1)"
    "regions_ok lines (e + 1) rs"
    by auto
  note IH = Cons.IH [OF b(5)]
  have "e + 1 < s2" if "(s2, e2) \<in> set rs" for s2 e2
  proof -
    have le: "e + 1 \<le> s2" using IH that by auto
    have "table_at lines s2 \<and> s2 < int (length lines)"
      using regions_ok_mem [OF b(5) that] by auto
    then show ?thesis using le b(4) by (cases "s2 = e + 1") auto
  qed
  then show ?case using IH b by (auto simp: r)
qed

lemma walk_emit:
  "walk (\<lambda>i. cleanRegularLine) (\<lambda>i. cleanTableLine) formatTableRegion lines p rs =
     concat (map (emit lines) (trace_walk lines p rs))"
proof (induction rs arbitrary: p)
  case Nil
  have "concat (map (emit lines) (map ViaProse xs)) = map (\<lambda>i. cleanRegularLine (lines ! nat i)) xs" for xs
    by (induction xs) auto
  then show ?case by simp
next
  case (Cons r rs)
  obtain s e where r: "r = (s, e)" by (cases r)
  have "concat (map (emit lines) (map ViaProse xs)) = map (\<lambda>i. cleanRegularLine (lines ! nat i)) xs" for xs
    by (induction xs) auto
  then show ?case using Cons.IH by (simp add: r)
qed

lemma cleanedLines_walk:
  "cleanedLines lines =
     Inr (walk (\<lambda>i. cleanRegularLine) (\<lambda>i. cleanTableLine) formatTableRegion lines 0
            (find_table_regions lines))"
  unfolding cleanedLines_def by (rule assemble_ok [OF find_table_regions_ok]) simp

text \<open>
  Claim C2. For every document the table regions are in order, apart and inside
  \<open>[0, lineCount)\<close>; each is a maximal run of lines with the table verdict; the lines
  between them do not have the verdict; and the walk hands every line index to exactly one
  branch (prose cleaning or table formatting), in the original order, without reading
  outside the array.
\<close>

theorem regions_cover_document:
  "\<exists>tr. emission_trace lines = Inr tr \<and>
     cleanedLines lines = Inr (concat (map (emit lines) tr)) \<and>
     concat (map emitted_indices tr) = [0..int (length lines) - 1] \<and>
     filter via_table tr = map (\<lambda>(s, e). ViaTable [s..e]) (find_table_regions lines) \<and>
     (\<forall>i. ViaProse i \<in> set tr \<longrightarrow> \<not> isTableLine (lines ! nat i)) \<and>
     (\<forall>(s, e)\<in>set (find_table_regions lines).
        0 \<le> s \<and> s \<le> e \<and> e < int (length lines) \<and>
        (\<forall>i. s \<le> i \<and> i \<le> e \<longrightarrow> isTableLine (lines ! nat i)) \<and>
        (s = 0 \<or> \<not> isTableLine (lines ! nat (s - 1))) \<and>
        (e = int (length lines) - 1 \<or> \<not> isTableLine (lines ! nat (e + 1)))) \<and>
     sorted_wrt (\<lambda>(s1, e1) (s2, e2). e1 + 1 < s2) (find_table_regions lines)"
proof -
  let ?rs = "find_table_regions lines"
  let ?tr = "trace_walk lines 0 ?rs"
  note ok = find_table_regions_ok [of lines]
  have 1: "emission_trace lines = Inr ?tr"
    unfolding emission_trace_def by (rule assemble_ok [OF ok]) simp
  have 2: "cleanedLines lines = Inr (concat (map (emit lines) ?tr))"
    by (simp only: cleanedLines_walk walk_emit)
  have 3: "concat (map emitted_indices ?tr) = [0..int (length lines) - 1]"
    by (rule trace_indices [OF ok]) simp
  have 4: "filter via_table ?tr = map (\<lambda>(s, e). ViaTable [s..e]) ?rs"
    by (rule trace_tables)
  have 5: "\<forall>i. ViaProse i \<in> set ?tr \<longrightarrow> \<not> isTableLine (lines ! nat i)"
    using trace_prose [OF ok] by (auto simp: table_at_def)
  have 6: "\<forall>(s, e)\<in>set ?rs.
        0 \<le> s \<and> s \<le> e \<and> e < int (length lines) \<and>
        (\<forall>i. s \<le> i \<and> i \<le> e \<longrightarrow> isTableLine (lines ! nat i)) \<and>
        (s = 0 \<or> \<not> isTableLine (lines ! nat (s - 1))) \<and>
        (e = int (length lines) - 1 \<or> \<not> isTableLine (lines ! nat (e + 1)))"
  proof (clarify)
    fix s e assume "(s, e) \<in> set ?rs"
    from regions_maximal [OF ok _ _ this]
    show "0 \<le> s \<and> s \<le> e \<and> e < int (length lines) \<and>
        (\<forall>i. s \<le> i \<and> i \<le> e \<longrightarrow> isTableLine (lines ! nat i)) \<and>
        (s = 0 \<or> \<not> isTableLine (lines ! nat (s - 1))) \<and>
        (e = int (length lines) - 1 \<or> \<not> isTableLine (lines ! nat (e + 1)))"
      by (simp add: table_at_def)
  qed
  have 7: "sorted_wrt (\<lambda>(s1, e1) (s2, e2). e1 + 1 < s2) ?rs"
    using regions_separated [OF ok] by simp
  show ?thesis using 1 2 3 4 5 6 7 by blast
qed

theorem regions_cover_document_witness:
  "emission_trace [''a|b|c'', ''x'', ''|a|'', ''||'', ''y'', ''| |''] =
     Inr [ViaTable [0], ViaProse 1, ViaTable [2, 3], ViaProse 4, ViaTable [5]] \<and>
   find_table_regions [''a|b|c'', ''x'', ''|a|'', ''||'', ''y'', ''| |''] = [(0, 0), (2, 3), (5, 5)]"
proof -
  let ?lines = "[''a|b|c'', ''x'', ''|a|'', ''||'', ''y'', ''| |'']"
  have rs: "find_table_regions ?lines = [(0, 0), (2, 3), (5, 5)]" by code_simp
  obtain tr where tr: "emission_trace ?lines = Inr tr"
    "concat (map emitted_indices tr) = [0..int (length ?lines) - 1]"
    "filter via_table tr = map (\<lambda>(s, e). ViaTable [s..e]) (find_table_regions ?lines)"
    using regions_cover_document [of ?lines] by blast
  have "emission_trace ?lines = Inr [ViaTable [0], ViaProse 1, ViaTable [2, 3], ViaProse 4, ViaTable [5]]"
    by code_simp
  then show ?thesis using rs tr by simp
qed

text \<open>
  Claim C9, as amended. A value that is not a string, and the empty string, is returned as
  it is: nothing is raised and nothing is coerced. Every string input gives a string, and
  no read of the walk is out of range.
\<close>

theorem cleanMarkerOutput_returns:
  "(\<not> is_string v \<or> v = JString [] \<longrightarrow> cleanMarkerOutput v = Inr v) \<and>
   (\<exists>s'. cleanMarkerOutput (JString s) = Inr (JString s'))"
proof -
  have "\<exists>out. improvedCleanMarkerOutput s = Inr out"
    by (simp add: improvedCleanMarkerOutput_def cleanedLines_walk)
  then show ?thesis
    by (auto simp: cleanMarkerOutput_def truthy_def is_string_def split: jsval.splits)
qed

theorem cleanMarkerOutput_returns_witness:
  "cleanMarkerOutput (JNumber 5) = Inr (JNumber 5) \<and>
   cleanMarkerOutput (JString []) = Inr (JString []) \<and>
   cleanMarkerOutput (JString ''A <br> b'') = Inr (JString ''A b'')"
proof -
  have 1: "cleanMarkerOutput (JNumber 5) = Inr (JNumber 5)"
    using cleanMarkerOutput_returns [of "JNumber 5"] by (simp add: is_string_def)
  have 2: "cleanMarkerOutput (JString []) = Inr (JString [])"
    using cleanMarkerOutput_returns [of "JString []"] by simp
  have 3: "cleanMarkerOutput (JString ''A <br> b'') = Inr (JString ''A b'')"
    by code_simp
  show ?thesis using 1 2 3 by simp
qed

text \<open>
  Claim C9 as stated fails: for the number 5 and for \<open>null\<close> no error is signalled,
  the value comes back.
\<close>

theorem non_string_is_returned_unchanged:
  "cleanMarkerOutput (JNumber 5) = Inr (JNumber 5) \<and> cleanMarkerOutput JNull = Inr JNull"
  by (simp add: cleanMarkerOutput_def truthy_def is_string_def)

section \<open>Column widths\<close>










text \<open>
  Claim C6 says every planned width is an integer. For the region \<open>| aaa...a |\<close>
  (60 letters), \<open>| b |\<close> the lengths are 60 and 1, their mean is 30.5, and the medium
  tier yields \<open>min(48, 40.5) = 40.5\<close>: the mean is not rounded where
  \<open>maxLength * 0.8\<close> is.
\<close>

theorem fractional_width:
  "parse_rows [''| '' @ replicate 60 CHR ''a'' @ '' |'', ''| b |''] = [[replicate 60 CHR ''a''], [''b'']] \<and>
   columnWidths [[replicate 60 CHR ''a''], [''b'']] = [81 / 2]"
proof -
  have 1: "parse_rows [''| '' @ replicate 60 CHR ''a'' @ '' |'', ''| b |''] = [[replicate 60 CHR ''a''], [''b'']]"
    by code_simp
  have 2: "columnWidths [[replicate 60 CHR ''a''], [''b'']] = [81 / 2]"
    by code_simp
  show ?thesis using 1 2 by simp
qed

text \<open>
  Claim C8 says the halves of a URL broken by \<open><br>\<close> end up joined. The line
  cleaners turn every \<open><br>\<close> into a space before \<open>applyGlobalCleanups\<close> runs, so
  its repair never sees the marker: the pipeline leaves a space between the halves, although
  \<open>applyGlobalCleanups\<close> alone joins them.
\<close>

theorem url_halves_get_a_space:
  "improvedCleanMarkerOutput ''see https://example.com/foo<br>bar now'' =
     Inr ''see https://example.com/foo bar now'' \<and>
   applyGlobalCleanups ''see https://example.com/foo<br>bar now'' =
     ''see https://example.com/foobar now''"
proof -
  have 1: "improvedCleanMarkerOutput ''see https://example.com/foo<br>bar now'' =
     Inr ''see https://example.com/foo bar now''"
    by code_simp
  have 2: "applyGlobalCleanups ''see https://example.com/foo<br>bar now'' =
     ''see https://example.com/foobar now''"
    by code_simp
  show ?thesis using 1 2 by simp
qed


section \<open>Parsing and rendering a table region\<close>

lemma split_on_not_Nil [simp]: "split_on d s \<noteq> []"
  by (induction s) (auto split: list.splits)

lemma split_on_no_sep: "d \<notin> set s \<Longrightarrow> split_on d s = [s]"
  by (induction s) auto

lemma split_on_append_sep:
  "d \<notin> set a \<Longrightarrow> split_on d (a @ d # b) = a # split_on d b"
  by (induction a) auto

lemma split_on_pieces: "p \<in> set (split_on d s) \<Longrightarrow> set p \<subseteq> set s - {d}"
proof (induction s arbitrary: p)
  case Nil
  then show ?case by simp
next
  case (Cons c cs)
  show ?case
  proof (cases "c = d")
    case True
    then show ?thesis using Cons by auto
  next
    case False
    obtain w ws where s: "split_on d cs = w # ws" by (cases "split_on d cs") auto
    then have "p = c # w \<or> p \<in> set ws" using Cons.prems False by auto
    then show ?thesis
    proof
      assume "p = c # w"
      moreover have "set w \<subseteq> set cs - {d}" using Cons.IH [of w] s by simp
      ultimately show ?thesis using False by auto
    next
      assume "p \<in> set ws"
      then have "set p \<subseteq> set cs - {d}" using Cons.IH [of p] s by simp
      then show ?thesis by auto
    qed
  qed
qed

lemma set_trim: "set (trim s) \<subseteq> set s"
proof -
  have "set (trim s) \<subseteq> set (rev (dropWhile is_ws s))"
    unfolding trim_def using set_dropWhileD by fastforce
  also have "\<dots> \<subseteq> set s" using set_dropWhileD by fastforce
  finally show ?thesis .
qed

lemma parse_cells_no_pipe: "c \<in> set (parse_cells line) \<Longrightarrow> CHR ''|'' \<notin> set c"
proof -
  assume "c \<in> set (parse_cells line)"
  then have "c \<in> set (map trim (split_on CHR ''|'' line))"
    unfolding parse_cells_def Let_def
    by (auto dest!: set_zip_rightD)
  then obtain p where "p \<in> set (split_on CHR ''|'' line)" "c = trim p" by auto
  then show ?thesis using split_on_pieces [of p "CHR ''|''" line] set_trim [of p] by auto
qed

lemma parse_rows_cells:
  "row \<in> set (parse_rows tls) \<Longrightarrow> row \<noteq> [] \<and> (\<forall>c\<in>set row. CHR ''|'' \<notin> set c)"
  by (induction tls) (auto simp: Let_def parse_cells_no_pipe split: if_splits)




lemma split_joined:
  "cells \<noteq> [] \<Longrightarrow> \<forall>c\<in>set cells. CHR ''|'' \<notin> set c \<Longrightarrow>
     split_on CHR ''|'' (CHR '' '' # join_with '' | '' cells @ '' |'') =
       map (\<lambda>c. '' '' @ c @ '' '') cells @ [[]]"
proof (induction cells rule: induct_list012)
  case 1
  then show ?case by simp
next
  case (2 x)
  have "CHR ''|'' \<notin> set (CHR '' '' # x @ '' '')" using 2 by simp
  from split_on_append_sep [OF this, of "[]"] show ?case by simp
next
  case (3 x y ys)
  have n: "CHR ''|'' \<notin> set (CHR '' '' # x @ '' '')" using 3 by simp
  have "CHR '' '' # join_with '' | '' (x # y # ys) @ '' |'' =
        (CHR '' '' # x @ '' '') @ CHR ''|'' # (CHR '' '' # join_with '' | '' (y # ys) @ '' |'')"
    by simp
  then have "split_on CHR ''|'' (CHR '' '' # join_with '' | '' (x # y # ys) @ '' |'') =
        (CHR '' '' # x @ '' '') # split_on CHR ''|'' (CHR '' '' # join_with '' | '' (y # ys) @ '' |'')"
    using split_on_append_sep [OF n] by simp
  then show ?case using 3 by simp
qed

lemma split_table_line:
  "cells \<noteq> [] \<Longrightarrow> \<forall>c\<in>set cells. CHR ''|'' \<notin> set c \<Longrightarrow>
     split_on CHR ''|'' (table_line cells) = [] # map (\<lambda>c. '' '' @ c @ '' '') cells @ [[]]"
  using split_joined [of cells] by (simp add: table_line_def)

lemma accumulate_words_chars:
  "x \<in> set (accumulate_words w result words) \<Longrightarrow>
     x \<in> set result \<or> x = CHR '' '' \<or> (\<exists>word\<in>set words. x \<in> set word)"
proof (induction w result words rule: accumulate_words.induct)
  case (1 width result)
  then show ?case by simp
next
  case (2 width result word words)
  show ?case
  proof (cases "rat_of_nat (length (result @ word)) \<le> width - 3")
    case True
    then have "x \<in> set (accumulate_words width (result @ (if result \<noteq> [] then '' '' else []) @ word) words)"
      using 2(2) by simp
    from 2(1) [OF True this] show ?thesis by (auto split: if_splits)
  next
    case False
    then show ?thesis using 2(2) by simp
  qed
qed

lemma truncation_buffer_chars:
  assumes "x \<in> set (truncation_buffer w cell)"
  shows "x \<in> set cell \<or> x = CHR '' ''"
proof (cases "length (accumulate_words w [] (split_on CHR '' '' cell)) = 0")
  case True
  then have "truncation_buffer w cell = take (nat \<lfloor>w - 3\<rfloor>) cell"
    by (simp add: truncation_buffer_def substring0_def)
  then show ?thesis using assms by (auto dest: in_set_takeD)
next
  case False
  then have "x \<in> set (accumulate_words w [] (split_on CHR '' '' cell))"
    using assms by (simp add: truncation_buffer_def)
  from accumulate_words_chars [OF this]
  consider "x = CHR '' ''" | word where "word \<in> set (split_on CHR '' '' cell)" "x \<in> set word"
    by auto
  then show ?thesis
  proof cases
    case 1
    then show ?thesis by simp
  next
    case 2
    then show ?thesis using split_on_pieces [OF 2(1)] by auto
  qed
qed

lemma format_cell_chars:
  assumes "x \<in> set (format_cell w cell)"
  shows "x \<in> set cell \<or> x = CHR '' '' \<or> x = CHR ''.''"
proof (cases "rat_of_nat (length cell) \<le> w")
  case True
  then show ?thesis using assms by (auto simp: format_cell_def padEnd_def)
next
  case False
  then have "x \<in> set (truncation_buffer w cell) \<or> x = CHR '' '' \<or> x = CHR ''.''"
    using assms by (auto simp: format_cell_def padEnd_def)
  then show ?thesis using truncation_buffer_chars [of x w cell] by auto
qed

lemma format_cell_no_pipe: "CHR ''|'' \<notin> set cell \<Longrightarrow> CHR ''|'' \<notin> set (format_cell w cell)"
  using format_cell_chars [of "CHR ''|''" w cell] by auto

lemma column_width_ge_8: "8 \<le> column_width rows c"
  by (simp add: column_width_def Let_def le_max_iff_disj of_nat_max)

lemma math_max_ge: "x \<in> set xs \<Longrightarrow> x \<le> math_max xs"
proof -
  have "x \<in> set xs \<Longrightarrow> x \<le> foldl max a xs" for a
  proof (induction xs arbitrary: a)
    case Nil
    then show ?case by simp
  next
    case (Cons y ys)
    have "max a y \<le> foldl max (max a y) ys"
    proof (induction ys arbitrary: a y)
      case Nil
      then show ?case by simp
    next
      case (Cons z zs)
      have "max a y \<le> max (max a y) z" by simp
      also have "\<dots> \<le> foldl max (max (max a y) z) zs" using Cons [of "max a y" z] by simp
      finally show ?case by simp
    qed
    then show ?case using Cons by (cases "x = y") auto
  qed
  then show "x \<in> set xs \<Longrightarrow> x \<le> math_max xs" by (simp add: math_max_def)
qed

lemma maxColumns_pos:
  assumes "rows \<noteq> []" "\<forall>row\<in>set rows. row \<noteq> []"
  shows "0 < maxColumns rows"
proof -
  obtain row where row: "row \<in> set rows" using assms(1) by (cases rows) auto
  then have "length row \<le> maxColumns rows"
    unfolding maxColumns_def by (intro math_max_ge) simp
  moreover have "0 < length row" using assms(2) row by auto
  ultimately show ?thesis by linarith
qed

lemma format_rows_lines:
  "line \<in> set (format_rows widths k rows) \<Longrightarrow>
     line = table_line (separator_cells widths) \<or>
     (\<exists>row\<in>set rows. line = table_line (format_row widths row))"
  by (induction widths k rows rule: format_rows.induct) (auto split: if_splits)

lemma well_rendered_format_cell:
  assumes "3 \<le> w"
  shows "well_rendered w cell (format_cell w cell)"
proof (cases "rat_of_nat (length cell) \<le> w")
  case True
  then have "int (length cell) \<le> \<lfloor>w\<rfloor>" by (simp add: le_floor_iff)
  then have "length cell \<le> nat \<lfloor>w\<rfloor>" by simp
  then show ?thesis using True by (simp add: well_rendered_def format_cell_def padEnd_def)
next
  case False
  let ?b = "truncation_buffer w cell"
  have out: "format_cell w cell = ?b @ ''...'' @ replicate (nat \<lfloor>w\<rfloor> - (length ?b + 3)) CHR '' ''"
    using False by (simp add: format_cell_def padEnd_def)
  have fl: "nat \<lfloor>w - 3\<rfloor> + 3 = nat \<lfloor>w\<rfloor>"
  proof -
    have a: "\<lfloor>w - 3\<rfloor> = \<lfloor>w\<rfloor> - 3" by simp
    have b: "3 \<le> \<lfloor>w\<rfloor>" using assms by (simp add: le_floor_iff)
    show ?thesis unfolding a using b by linarith
  qed
  have len: "length (format_cell w cell) = nat \<lfloor>w\<rfloor>" if "length ?b + 3 \<le> nat \<lfloor>w\<rfloor>"
    using that out by simp
  have 1: "length ?b + 3 \<le> nat \<lfloor>w\<rfloor>" if "rat_of_nat (length ?b) \<le> w - 3"
  proof -
    have "int (length ?b) \<le> \<lfloor>w - 3\<rfloor>"
      using that le_floor_iff [of "int (length ?b)" "w - 3"] by simp
    then show ?thesis using fl by linarith
  qed
  have 2: "length ?b + 3 \<le> nat \<lfloor>w\<rfloor>" if "accumulate_words w [] (split_on CHR '' '' cell) = []"
  proof -
    have "?b = take (nat \<lfloor>w - 3\<rfloor>) cell"
      using that by (simp add: truncation_buffer_def substring0_def)
    then have "length ?b \<le> nat \<lfloor>w - 3\<rfloor>" by simp
    then show ?thesis using fl by linarith
  qed
  show ?thesis
    unfolding well_rendered_def Let_def using False out len 1 2 by auto
qed

lemma length_format_rows:
  "length (format_rows widths k rows) = length rows + (if k = 0 \<and> rows \<noteq> [] then 1 else 0)"
  by (induction widths k rows rule: format_rows.induct) auto

lemma length_columnWidths [simp]: "length (columnWidths rows) = maxColumns rows"
  by (simp add: columnWidths_def)

lemma columnWidths_ge_3: "col < maxColumns rows \<Longrightarrow> 3 \<le> columnWidths rows ! col"
  using column_width_ge_8 [of rows col] by (simp add: columnWidths_def)

lemma cell_or_empty_no_pipe:
  "\<forall>c\<in>set row. CHR ''|'' \<notin> set c \<Longrightarrow> CHR ''|'' \<notin> set (cell_or_empty row col)"
  by (auto simp: cell_or_empty_def cell_truthy_def)

text \<open>
  Claim C1, as amended. For a region that is reformatted (two lines or more, one row or
  more) there is one output line per row and one separator line. Every output line, split
  on the pipe, is an empty piece, one piece per column index below \<open>maxColumns\<close> and
  an empty piece; each piece is a rendered cell between two spaces. On the separator line
  the rendered cell is \<open>\<lfloor>width\<rfloor>\<close> hyphens. On the line of a row it is
  \<open>well_rendered\<close>: a cell no longer than the width is padded to exactly \<open>\<lfloor>width\<rfloor>\<close>
  characters; a longer cell is the truncation buffer, then \<open>...\<close>, then the padding, and
  has exactly \<open>\<lfloor>width\<rfloor>\<close> characters when the buffer has at most \<open>width - 3\<close>,
  which it has whenever the hard truncation is used.
\<close>

theorem rendered_lines_are_rectangular:
  assumes "2 \<le> length tableLines" and "parse_rows tableLines \<noteq> []"
  shows "length (formatTableRegion tableLines) = Suc (length (parse_rows tableLines)) \<and>
    (\<forall>line\<in>set (formatTableRegion tableLines). \<exists>cells.
      split_on CHR ''|'' line = [] # map (\<lambda>c. '' '' @ c @ '' '') cells @ [[]] \<and>
      length cells = maxColumns (parse_rows tableLines) \<and>
      ((\<forall>col<length cells.
          cells ! col = replicate (nat \<lfloor>columnWidths (parse_rows tableLines) ! col\<rfloor>) CHR ''-'') \<or>
       (\<exists>row\<in>set (parse_rows tableLines). \<forall>col<length cells.
          well_rendered (columnWidths (parse_rows tableLines) ! col)
            (cell_or_empty row col) (cells ! col))))"
proof -
  let ?rows = "parse_rows tableLines"
  let ?W = "columnWidths ?rows"
  have out: "formatTableRegion tableLines = format_rows ?W 0 ?rows"
    using assms by (simp add: formatTableRegion_def Let_def)
  have rows: "\<forall>row\<in>set ?rows. row \<noteq> [] \<and> (\<forall>c\<in>set row. CHR ''|'' \<notin> set c)"
    using parse_rows_cells by blast
  have pos: "0 < maxColumns ?rows"
    using maxColumns_pos [OF assms(2)] rows by blast
  have len: "length (formatTableRegion tableLines) = Suc (length ?rows)"
    using assms(2) by (simp add: out length_format_rows)
  have each: "\<exists>cells.
      split_on CHR ''|'' line = [] # map (\<lambda>c. '' '' @ c @ '' '') cells @ [[]] \<and>
      length cells = maxColumns ?rows \<and>
      ((\<forall>col<length cells. cells ! col = replicate (nat \<lfloor>?W ! col\<rfloor>) CHR ''-'') \<or>
       (\<exists>row\<in>set ?rows. \<forall>col<length cells.
          well_rendered (?W ! col) (cell_or_empty row col) (cells ! col)))"
    if "line \<in> set (formatTableRegion tableLines)" for line
  proof -
    from that format_rows_lines [of line ?W 0 ?rows]
    consider "line = table_line (separator_cells ?W)"
      | row where "row \<in> set ?rows" "line = table_line (format_row ?W row)"
      unfolding out by blast
    then show ?thesis
    proof cases
      case 1
      let ?cells = "separator_cells ?W"
      have l: "length ?cells = maxColumns ?rows" by (simp add: separator_cells_def)
      have ne: "?cells \<noteq> []" using l pos by auto
      have np: "\<forall>c\<in>set ?cells. CHR ''|'' \<notin> set c"
        by (auto simp: separator_cells_def repeat_def)
      have d: "\<forall>col<length ?cells. ?cells ! col = replicate (nat \<lfloor>?W ! col\<rfloor>) CHR ''-''"
        by (simp add: separator_cells_def repeat_def)
      show ?thesis
        using split_table_line [OF ne np] l d unfolding 1 by blast
    next
      case 2
      let ?cells = "format_row ?W row"
      have l: "length ?cells = maxColumns ?rows" by (simp add: format_row_def)
      have ne: "?cells \<noteq> []" using l pos by auto
      have rp: "\<forall>c\<in>set row. CHR ''|'' \<notin> set c" using rows 2(1) by blast
      have np: "\<forall>c\<in>set ?cells. CHR ''|'' \<notin> set c"
        using cell_or_empty_no_pipe [OF rp] format_cell_no_pipe
        by (auto simp: format_row_def)
      have w: "\<forall>col<length ?cells. well_rendered (?W ! col) (cell_or_empty row col) (?cells ! col)"
        using well_rendered_format_cell columnWidths_ge_3 [of _ ?rows]
        by (simp add: format_row_def)
      show ?thesis
        using split_table_line [OF ne np] l w 2(1) unfolding 2(2) by blast
    qed
  qed
  show ?thesis using len each by blast
qed

theorem rendered_lines_are_rectangular_witness:
  "formatTableRegion [''| aaaaaaaaaa bbbbbbbbbbbbbbbbbbbbb |'', ''| c |''] =
     [''| aaaaaaaaaa...             |'', ''| ------------------------- |'',
      ''| c                         |''] \<and>
   length (formatTableRegion [''| aaaaaaaaaa bbbbbbbbbbbbbbbbbbbbb |'', ''| c |'']) =
     Suc (length (parse_rows [''| aaaaaaaaaa bbbbbbbbbbbbbbbbbbbbb |'', ''| c |'']))"
proof -
  let ?L = "[''| aaaaaaaaaa bbbbbbbbbbbbbbbbbbbbb |'', ''| c |'']"
  have p: "parse_rows ?L = [[''aaaaaaaaaa bbbbbbbbbbbbbbbbbbbbb''], [''c'']]" by code_simp
  have 1: "2 \<le> length ?L" by simp
  have 2: "parse_rows ?L \<noteq> []" by (simp only: p) simp
  have h: "length (formatTableRegion ?L) = Suc (length (parse_rows ?L))"
    using rendered_lines_are_rectangular [OF 1 2] by (rule conjunct1)
  have o: "formatTableRegion ?L =
     [''| aaaaaaaaaa...             |'', ''| ------------------------- |'',
      ''| c                         |'']"
    by code_simp
  show ?thesis using h o by (rule conjI [OF _ _, rotated])
qed

text \<open>
  Claim C1 as stated fails: the cell \<open>aaaaaaaaaa bbbbbbbbbbbbbbbbbbbbb\<close> has 32 characters,
  its column is 25 wide, and the rendered cell is the buffer, the ellipsis and twelve
  spaces of padding: it does not end with the ellipsis.
\<close>

theorem ellipsis_is_followed_by_padding:
  "parse_rows [''| aaaaaaaaaa bbbbbbbbbbbbbbbbbbbbb |'', ''| c |''] =
     [[''aaaaaaaaaa bbbbbbbbbbbbbbbbbbbbb''], [''c'']] \<and>
   columnWidths [[''aaaaaaaaaa bbbbbbbbbbbbbbbbbbbbb''], [''c'']] = [25] \<and>
   format_cell 25 ''aaaaaaaaaa bbbbbbbbbbbbbbbbbbbbb'' = ''aaaaaaaaaa...            '' \<and>
   \<not> suffix ''...'' (format_cell 25 ''aaaaaaaaaa bbbbbbbbbbbbbbbbbbbbb'')"
proof -
  have 1: "parse_rows [''| aaaaaaaaaa bbbbbbbbbbbbbbbbbbbbb |'', ''| c |''] =
     [[''aaaaaaaaaa bbbbbbbbbbbbbbbbbbbbb''], [''c'']]"
    by code_simp
  have 2: "columnWidths [[''aaaaaaaaaa bbbbbbbbbbbbbbbbbbbbb''], [''c'']] = [25]"
    by code_simp
  have 3: "format_cell 25 ''aaaaaaaaaa bbbbbbbbbbbbbbbbbbbbb'' = ''aaaaaaaaaa...            ''"
    by code_simp
  have 4: "\<not> suffix ''...'' (format_cell 25 ''aaaaaaaaaa bbbbbbbbbbbbbbbbbbbbb'')"
    by (simp only: 3) (simp add: suffix_to_prefix)
  show ?thesis using 1 2 3 4 by blast
qed

text \<open>
  The word loop compares \<open>(result + word).length\<close> with \<open>width - 3\<close> and then adds a
  space as well, so the buffer can be one character too long: here the column is 24 wide
  and the rendered cell has 25 characters.
\<close>

lemma joining_space_is_not_counted:
  "formatTableRegion [''| aaaaaaaaaa bbbbbbbbbbb ccccccc |'', ''| c |''] =
     [''| aaaaaaaaaa bbbbbbbbbbb... |'', ''| ------------------------ |'',
      ''| c                        |'']"
  by code_simp



section \<open>Facts about the matcher\<close>





















section \<open>Blank lines\<close>



lemma is_ws_LF [simp]: "is_ws LF"
  by (simp add: is_ws_def)





















end
